theory Spec2Isabelle
  imports Main
begin

section \<open>Python string operations used by the extractors\<close>

text \<open>
  Texts are modelled as \<^typ>\<open>string\<close>, one \<^typ>\<open>char\<close> per character, over the ASCII
  range: \<open>str.lower\<close> folds \<open>A..Z\<close>, \<open>str.strip\<close> and \<open>str.split\<close> use the ASCII
  white space of Python (codes 9 to 13 and 28 to 32), \<open>str.isupper\<close> asks for one
  upper-case letter and no lower-case letter.
\<close>

definition NL :: char where
  "NL = CHR 0x0A"

definition is_space :: "char \<Rightarrow> bool" where
  "is_space c = (let n = (of_char c :: nat) in (9 \<le> n \<and> n \<le> 13) \<or> (28 \<le> n \<and> n \<le> 32))"

definition is_upper_char :: "char \<Rightarrow> bool" where
  "is_upper_char c = (let n = (of_char c :: nat) in 65 \<le> n \<and> n \<le> 90)"

definition is_lower_char :: "char \<Rightarrow> bool" where
  "is_lower_char c = (let n = (of_char c :: nat) in 97 \<le> n \<and> n \<le> 122)"

definition lower_char :: "char \<Rightarrow> char" where
  "lower_char c = (if is_upper_char c then char_of ((of_char c :: nat) + 32) else c)"

definition lower :: "string \<Rightarrow> string" where
  "lower s = map lower_char s"

definition isupper :: "string \<Rightarrow> bool" where
  "isupper s = (list_ex is_upper_char s \<and> \<not> list_ex is_lower_char s)"

definition strip :: "string \<Rightarrow> string" where
  "strip s = rev (dropWhile is_space (rev (dropWhile is_space s)))"

definition startswith :: "string \<Rightarrow> string \<Rightarrow> bool" where
  "startswith s p = (take (length p) s = p)"

definition endswith :: "string \<Rightarrow> string \<Rightarrow> bool" where
  "endswith s p = (length p \<le> length s \<and> drop (length s - length p) s = p)"

text \<open>\<open>sub in s\<close>: the substring test.\<close>

fun py_in :: "string \<Rightarrow> string \<Rightarrow> bool" where
  "py_in sub [] = (sub = [])"
| "py_in sub (c # cs) = (startswith (c # cs) sub \<or> py_in sub cs)"



text \<open>\<open>s[a:b]\<close> for offsets \<open>0 \<le> a\<close> and \<open>0 \<le> b\<close>.\<close>

definition slice :: "'a list \<Rightarrow> nat \<Rightarrow> nat \<Rightarrow> 'a list" where
  "slice s a b = take (b - a) (drop a s)"

text \<open>\<open>s.split('\n')\<close>: never the empty list.\<close>

fun split_nl :: "string \<Rightarrow> string list" where
  "split_nl [] = [[]]"
| "split_nl (c # cs) =
     (if c = NL then [] # split_nl cs
      else (case split_nl cs of
              l # ls \<Rightarrow> (c # l) # ls
            | [] \<Rightarrow> [[c]]))"

text \<open>\<open>'\n'.join(ls)\<close>.\<close>

fun join_nl :: "string list \<Rightarrow> string" where
  "join_nl [] = []"
| "join_nl [l] = l"
| "join_nl (l # m # ls) = l @ NL # join_nl (m # ls)"

text \<open>\<open>s.split()\<close>: the maximal runs of characters that are not white space;
  \<open>w\<close> is the word being read.\<close>

fun split_ws_from :: "string \<Rightarrow> string \<Rightarrow> string list" where
  "split_ws_from [] w = (if w = [] then [] else [w])"
| "split_ws_from (c # cs) w =
     (if is_space c then (if w = [] then split_ws_from cs [] else w # split_ws_from cs [])
      else split_ws_from cs (w @ [c]))"

definition split_ws :: "string \<Rightarrow> string list" where
  "split_ws s = split_ws_from s []"

text \<open>\<open>s.replace('\n\n\n', '\n\n')\<close>: one pass from the left over non-overlapping
  occurrences.\<close>

fun replace_nl3 :: "string \<Rightarrow> string" where
  "replace_nl3 (a # b # c # cs) =
     (if a = NL \<and> b = NL \<and> c = NL then NL # NL # replace_nl3 cs
      else a # replace_nl3 (b # c # cs))"
| "replace_nl3 cs = cs"


section \<open>Mode policy\<close>

text \<open>
  The number of lines to extract, as computed in \<open>_extract_relevant_content\<close>
  (ai_assistant_remote.py). \<open>marks\<close> and \<open>age\<close> are \<open>Optional[int]\<close>; the test
  \<open>mode == "examination" and marks\<close> is false for \<open>None\<close> and for \<open>0\<close>.
\<close>

definition truthy :: "int option \<Rightarrow> bool" where
  "truthy v = (case v of None \<Rightarrow> False | Some k \<Rightarrow> k \<noteq> 0)"

definition lines_needed :: "string \<Rightarrow> int option \<Rightarrow> int option \<Rightarrow> nat" where
  "lines_needed mode marks age =
     (if mode = ''examination'' \<and> truthy marks then
        (if the marks \<le> 5 then 10
         else if the marks \<le> 10 then 20
         else if the marks \<le> 15 then 30
         else 30)
      else if mode = ''age_appropriate'' \<and> truthy age then
        (if the age \<le> 5 then 10
         else if the age \<le> 10 then 20
         else if the age \<le> 15 then 30
         else 20)
      else if mode = ''general'' then 50
      else 10)"

text \<open>The same computation, as written a second time in \<open>get_expanded_content\<close>
  (pdf_processor.py).\<close>

definition lines_needed_expanded :: "string \<Rightarrow> int option \<Rightarrow> int option \<Rightarrow> nat" where
  "lines_needed_expanded mode marks age =
     (if mode = ''examination'' \<and> truthy marks then
        (if the marks \<le> 5 then 10
         else if the marks \<le> 10 then 20
         else if the marks \<le> 15 then 30
         else 30)
      else if mode = ''age_appropriate'' \<and> truthy age then
        (if the age \<le> 5 then 10
         else if the age \<le> 10 then 20
         else if the age \<le> 15 then 30
         else 20)
      else if mode = ''general'' then 50
      else 10)"

text \<open>The table of the specification: a band for each mode and parameter, and the
  default \<open>10\<close> where the mode is not one of the three or its parameter is missing.\<close>

datatype band = Upto5 | Upto10 | Upto15 | Above15

definition band_of :: "int \<Rightarrow> band" where
  "band_of v = (if v \<le> 5 then Upto5
                else if 5 < v \<and> v \<le> 10 then Upto10
                else if 10 < v \<and> v \<le> 15 then Upto15
                else Above15)"

fun examination_lines :: "band \<Rightarrow> nat" where
  "examination_lines Upto5 = 10"
| "examination_lines Upto10 = 20"
| "examination_lines Upto15 = 30"
| "examination_lines Above15 = 30"

fun age_lines :: "band \<Rightarrow> nat" where
  "age_lines Upto5 = 10"
| "age_lines Upto10 = 20"
| "age_lines Upto15 = 30"
| "age_lines Above15 = 20"

definition policy_table :: "string \<Rightarrow> int option \<Rightarrow> int option \<Rightarrow> nat" where
  "policy_table mode marks age =
     (if mode = ''general'' then 50
      else if mode = ''examination'' then
        (case marks of None \<Rightarrow> 10 | Some m \<Rightarrow> examination_lines (band_of m))
      else if mode = ''age_appropriate'' then
        (case age of None \<Rightarrow> 10 | Some a \<Rightarrow> age_lines (band_of a))
      else 10)"


section \<open>Excerpt extractor: \<open>_extract_relevant_content\<close>\<close>

definition heading_markers :: "string list" where
  "heading_markers = [''1.'', ''2.'', ''3.'', ''4.'', ''5.'', ''Chapter'', ''CHAPTER'']"

text \<open>The heading test both extractors apply to a trimmed, non-empty line.\<close>

definition is_heading :: "string \<Rightarrow> bool" where
  "is_heading l = ((isupper l \<and> length l > 10) \<or> list_ex (startswith l) heading_markers)"

text \<open>\<open>any(word in line_lower for word in question_words if len(word) > 3)\<close>\<close>

definition line_matches :: "string list \<Rightarrow> string \<Rightarrow> bool" where
  "line_matches question_words line =
     list_ex (\<lambda>word. py_in word (lower line)) (filter (\<lambda>word. length word > 3) question_words)"

text \<open>The outer loop up to its \<open>break\<close>: the index of the first matching line.\<close>

fun first_relevant :: "string list \<Rightarrow> string list \<Rightarrow> nat \<Rightarrow> nat option" where
  "first_relevant question_words [] i = None"
| "first_relevant question_words (line # rest) i =
     (if line_matches question_words line then Some i
      else first_relevant question_words rest (Suc i))"

text \<open>The inner loop over the window \<open>content_lines[start_idx : start_idx + lines_needed + 5]\<close>;
  the accumulator is \<open>extracted_lines\<close>.\<close>

fun extract_loop :: "string \<Rightarrow> nat \<Rightarrow> string list \<Rightarrow> string list \<Rightarrow> string list" where
  "extract_loop mode n [] extracted_lines = extracted_lines"
| "extract_loop mode n (l # ls) extracted_lines =
     (let current_line = strip l in
      if current_line = [] then extract_loop mode n ls extracted_lines
      else if is_heading current_line \<and> length extracted_lines > 3 then extracted_lines
      else
        (let extracted = extracted_lines @ [current_line] in
         if mode = ''general'' \<and> endswith current_line ''.'' \<and> length extracted \<ge> 50
           then extracted
         else if (mode = ''examination'' \<or> mode = ''age_appropriate'') \<and> length extracted \<ge> n
                 \<and> endswith current_line ''.''
           then extracted
         else extract_loop mode n ls extracted))"

definition relevant_lines ::
  "string list \<Rightarrow> string list \<Rightarrow> string \<Rightarrow> int option \<Rightarrow> int option \<Rightarrow> string list" where
  "relevant_lines content_lines question_words mode marks age =
     (case first_relevant question_words content_lines 0 of
        None \<Rightarrow> []
      | Some i \<Rightarrow>
          (let start_idx = nat (max 0 (int i - 2));
               n = lines_needed mode marks age
           in extract_loop mode n
                (slice content_lines start_idx (min (length content_lines) (start_idx + n + 5))) []))"

text \<open>The fallback loop over \<open>content_lines[:50]\<close>.\<close>

fun words_in_content :: "string list \<Rightarrow> string list \<Rightarrow> string list" where
  "words_in_content [] acc = acc"
| "words_in_content (line # rest) acc =
     (if strip line \<noteq> [] \<and> length (strip line) > 20 then
        (let acc' = acc @ [strip line] in
         if length acc' \<ge> 8 then acc' else words_in_content rest acc')
      else words_in_content rest acc)"

definition no_content_message :: string where
  "no_content_message = ''No PDF content available.''"

definition pointer_message :: "string \<Rightarrow> string" where
  "pointer_message question =
     ''Content related to '' @ [CHR 0x27] @ question @ [CHR 0x27] @
     '' can be found in your uploaded PDF. Please use the search feature for more specific results.''"

text \<open>The lines that are joined: those of the match, or the fallback when there are none.\<close>

definition excerpt_lines ::
  "string \<Rightarrow> string \<Rightarrow> string \<Rightarrow> int option \<Rightarrow> int option \<Rightarrow> string list" where
  "excerpt_lines pdf_content question mode marks age =
     (let question_words = split_ws (lower question);
          content_lines = split_nl pdf_content;
          found = relevant_lines content_lines question_words mode marks age
      in if found = [] then words_in_content (take 50 content_lines) [] else found)"

definition extract_relevant_content ::
  "string \<Rightarrow> string \<Rightarrow> string \<Rightarrow> int option \<Rightarrow> int option \<Rightarrow> string" where
  "extract_relevant_content pdf_content question mode marks age =
     (if pdf_content = [] then no_content_message
      else
        (let content = replace_nl3 (join_nl (excerpt_lines pdf_content question mode marks age))
         in if strip content = [] then pointer_message question else strip content))"


section \<open>Search and expansion: \<open>PDFProcessor\<close>\<close>

record page =
  page_number :: int
  text_of :: string



text \<open>The text of the first page with the given number, \<open>""\<close> when there is none.\<close>

fun find_page :: "page list \<Rightarrow> int \<Rightarrow> string" where
  "find_page [] n = []"
| "find_page (p # ps) n = (if page_number p = n then text_of p else find_page ps n)"

text \<open>The index of the first line that contains the trimmed context, \<open>-1\<close> when no line does.\<close>

fun context_line :: "string list \<Rightarrow> string \<Rightarrow> nat \<Rightarrow> int" where
  "context_line [] anchor i = - 1"
| "context_line (line # rest) anchor i =
     (if py_in anchor line then int i else context_line rest anchor (Suc i))"

text \<open>The loop over \<open>content_lines[start_idx : end_idx]\<close>; the accumulator is
  \<open>expanded_lines\<close>.\<close>

fun expand_loop :: "string \<Rightarrow> nat \<Rightarrow> string list \<Rightarrow> string list \<Rightarrow> string list" where
  "expand_loop mode n [] expanded_lines = expanded_lines"
| "expand_loop mode n (l # ls) expanded_lines =
     (let line = strip l in
      if line = [] then expand_loop mode n ls expanded_lines
      else if isupper line \<and> length line > 10 then expanded_lines
      else if list_ex (startswith line) heading_markers then expanded_lines
      else
        (let expanded = expanded_lines @ [line] in
         if (mode = ''examination'' \<or> mode = ''age_appropriate'') \<and> length expanded \<ge> n
            \<and> endswith line ''.''
           then expanded
         else if mode = ''general'' \<and> endswith line ''.'' \<and> length expanded \<ge> 50
           then expanded
         else expand_loop mode n ls expanded))"

text \<open>The lines collected below line \<open>idx\<close> of the page.\<close>

definition expanded_lines ::
  "string list \<Rightarrow> nat \<Rightarrow> string \<Rightarrow> int option \<Rightarrow> int option \<Rightarrow> string list" where
  "expanded_lines content_lines idx mode marks age =
     (let n = lines_needed_expanded mode marks age;
          start_idx = idx + 1;
          end_idx = min (length content_lines) (start_idx + n + 10)
      in expand_loop mode n (slice content_lines start_idx end_idx) [])"

definition get_expanded_content ::
  "page list \<Rightarrow> int \<Rightarrow> string \<Rightarrow> string \<Rightarrow> int option \<Rightarrow> int option \<Rightarrow> string" where
  "get_expanded_content pages_content pn context mode marks age =
     (if pn \<le> 0 \<or> pn > int (length pages_content) then context
      else
        (let page_content = find_page pages_content pn in
         if page_content = [] then context
         else
           (let content_lines = split_nl page_content;
                context_line_idx = context_line content_lines (strip context) 0
            in if context_line_idx = - 1 then context
               else
                 (let collected = expanded_lines content_lines (nat context_line_idx) mode marks age
                  in if length collected < 3 then context @ [NL, NL] @ join_nl collected
                     else join_nl collected))))"


section \<open>Lines as the extractors collect them\<close>

text \<open>A collected line: not empty, free of newlines, with no white space at either end.\<close>

definition trimmed_line :: "string \<Rightarrow> bool" where
  "trimmed_line l = (l \<noteq> [] \<and> NL \<notin> set l \<and> \<not> is_space (hd l) \<and> \<not> is_space (last l))"


section \<open>Facts about lines, trimming and joining\<close>

text \<open>Splitting at newlines gives lines without newlines and undoes a join of such lines;
  a trimmed string has no white space at its ends, and a join of trimmed lines is unchanged
  by trimming.\<close>



lemma is_space_NL: "is_space NL"
  by (simp add: is_space_def NL_def)

lemma split_nl_not_Nil: "split_nl s \<noteq> []"
  by (induction s) (auto split: list.splits)

lemma split_nl_no_NL: "l \<in> set (split_nl s) \<Longrightarrow> NL \<notin> set l"
  by (induction s arbitrary: l) (auto split: list.splits if_splits)

lemma split_nl_plain: "NL \<notin> set l \<Longrightarrow> split_nl l = [l]"
  by (induction l) auto

lemma split_nl_append: "NL \<notin> set l \<Longrightarrow> split_nl (l @ NL # r) = l # split_nl r"
  by (induction l) auto

lemma split_nl_join_nl:
  "xs \<noteq> [] \<Longrightarrow> \<forall>x\<in>set xs. NL \<notin> set x \<Longrightarrow> split_nl (join_nl xs) = xs"
  by (induction xs rule: join_nl.induct) (auto simp: split_nl_plain split_nl_append)

lemma set_strip_subset: "set (strip s) \<subseteq> set s"
  unfolding strip_def by (auto dest!: set_dropWhileD)

lemma last_dropWhile: "dropWhile P xs \<noteq> [] \<Longrightarrow> last (dropWhile P xs) = last xs"
  by (induction xs) (auto)

lemma strip_hd_last:
  assumes "strip s \<noteq> []"
  shows "\<not> is_space (hd (strip s))" and "\<not> is_space (last (strip s))"
proof -
  let ?t = "dropWhile is_space s"
  let ?u = "dropWhile is_space (rev ?t)"
  from assms have u: "?u \<noteq> []" by (simp add: strip_def)
  have t: "?t \<noteq> []"
  proof
    assume "?t = []"
    then have "?u = []" by (auto dest: set_dropWhileD)
    with u show False by simp
  qed
  have "\<not> is_space (hd ?u)" using u by (rule hd_dropWhile)
  then show "\<not> is_space (last (strip s))" using u by (simp add: strip_def last_rev)
  have "last ?u = last (rev ?t)" using u by (rule last_dropWhile)
  also have "\<dots> = hd ?t" using t by (simp add: last_rev)
  finally have "hd (strip s) = hd ?t" using u by (simp add: strip_def hd_rev)
  moreover have "\<not> is_space (hd ?t)" using t by (rule hd_dropWhile)
  ultimately show "\<not> is_space (hd (strip s))" by simp
qed

lemma dropWhile_hd_id: "xs \<noteq> [] \<Longrightarrow> \<not> P (hd xs) \<Longrightarrow> dropWhile P xs = xs"
  by (cases xs) auto

lemma strip_id: "s \<noteq> [] \<Longrightarrow> \<not> is_space (hd s) \<Longrightarrow> \<not> is_space (last s) \<Longrightarrow> strip s = s"
  by (simp add: strip_def dropWhile_hd_id hd_rev)

lemma strip_Nil_iff: "strip s = [] \<longleftrightarrow> (\<forall>c\<in>set s. is_space c)"
proof
  assume "strip s = []"
  then have "dropWhile is_space (rev (dropWhile is_space s)) = []" by (simp add: strip_def)
  then have "\<forall>c\<in>set (dropWhile is_space s). is_space c" by (simp add: dropWhile_eq_Nil_conv)
  then have "dropWhile is_space s = []"
    by (metis hd_dropWhile list.set_sel(1))
  then show "\<forall>c\<in>set s. is_space c" by (simp add: dropWhile_eq_Nil_conv)
next
  assume "\<forall>c\<in>set s. is_space c"
  then show "strip s = []" by (auto simp: strip_def dest: set_dropWhileD)
qed

lemma trimmed_strip: "NL \<notin> set l \<Longrightarrow> strip l \<noteq> [] \<Longrightarrow> trimmed_line (strip l)"
  using set_strip_subset[of l] by (auto simp: trimmed_line_def strip_hd_last)

lemma join_nl_Cons: "xs \<noteq> [] \<Longrightarrow> join_nl (x # xs) = x @ NL # join_nl xs"
  by (cases xs) auto

lemma join_nl_not_Nil: "xs \<noteq> [] \<Longrightarrow> \<forall>x\<in>set xs. x \<noteq> [] \<Longrightarrow> join_nl xs \<noteq> []"
  by (induction xs rule: join_nl.induct) auto

lemma hd_join_nl: "x \<noteq> [] \<Longrightarrow> hd (join_nl (x # xs)) = hd x"
  by (cases xs) auto

lemma last_join_nl: "xs \<noteq> [] \<Longrightarrow> \<forall>x\<in>set xs. x \<noteq> [] \<Longrightarrow> last (join_nl xs) = last (last xs)"
  by (induction xs rule: join_nl.induct) (auto simp: join_nl_not_Nil)

lemma strip_join_nl:
  assumes "xs \<noteq> []" "\<forall>x\<in>set xs. trimmed_line x"
  shows "strip (join_nl xs) = join_nl xs"
proof -
  obtain y ys where xs: "xs = y # ys" using assms(1) by (cases xs) auto
  have ne: "\<forall>x\<in>set xs. x \<noteq> []" using assms(2) by (simp add: trimmed_line_def)
  have "hd (join_nl xs) = hd y" using ne xs by (simp add: hd_join_nl)
  moreover have "last (join_nl xs) = last (last xs)" using assms(1) ne by (rule last_join_nl)
  moreover have "trimmed_line y" "trimmed_line (last xs)" using assms xs by auto
  ultimately show ?thesis
    using join_nl_not_Nil[OF assms(1) ne] by (intro strip_id) (auto simp: trimmed_line_def)
qed


section \<open>Facts about matching and the two loops of the excerpt extractor\<close>

text \<open>A substring's characters occur in the string; lower-casing keeps white space and
  lengths; the words of \<open>split\<close> contain no white space, so a matching line is not
  blank. The first matching index is the least one, and the fallback loop keeps at most 8
  long lines.\<close>


lemma startswith_Nil [simp]: "startswith s []"
  by (simp add: startswith_def)

lemma py_in_set: "py_in a b \<Longrightarrow> set a \<subseteq> set b"
proof (induction b)
  case Nil
  then show ?case by simp
next
  case (Cons c cs)
  show ?case
  proof (cases "startswith (c # cs) a")
    case True
    then have "a = take (length a) (c # cs)" by (simp add: startswith_def)
    then have "set a \<subseteq> set (c # cs)" by (metis set_take_subset)
    then show ?thesis .
  next
    case False
    with Cons show ?thesis by auto
  qed
qed

lemma py_in_Nil [simp]: "py_in [] s"
  by (cases s) simp_all

lemma is_space_lower_char: "is_space (lower_char c) = is_space c"
  by (auto simp: lower_char_def is_space_def is_upper_char_def Let_def)

lemma length_lower [simp]: "length (lower s) = length s"
  by (simp add: lower_def)

lemma split_ws_from_no_space:
  "w \<in> set (split_ws_from s acc) \<Longrightarrow> \<forall>c\<in>set acc. \<not> is_space c \<Longrightarrow> \<forall>c\<in>set w. \<not> is_space c"
proof (induction s arbitrary: acc)
  case Nil
  then show ?case by (auto split: if_splits)
next
  case (Cons d s)
  show ?case
  proof (cases "is_space d")
    case True
    then have "w = acc \<or> w \<in> set (split_ws_from s [])"
      using Cons.prems(1) by (auto split: if_splits)
    then show ?thesis
    proof
      assume "w = acc"
      with Cons.prems(2) show ?thesis by simp
    next
      assume "w \<in> set (split_ws_from s [])"
      then show ?thesis by (rule Cons.IH) simp
    qed
  next
    case False
    then have "w \<in> set (split_ws_from s (acc @ [d]))" using Cons.prems(1) by simp
    then show ?thesis
      by (rule Cons.IH) (use False Cons.prems(2) in auto)
  qed
qed

lemma split_ws_no_space: "w \<in> set (split_ws s) \<Longrightarrow> c \<in> set w \<Longrightarrow> \<not> is_space c"
  using split_ws_from_no_space[of w s "[]"] by (simp add: split_ws_def)

lemma line_matches_iff:
  "line_matches ws l \<longleftrightarrow> (\<exists>w\<in>set ws. length w > 3 \<and> py_in w (lower l))"
  by (auto simp: line_matches_def list_ex_iff)

lemma line_matches_not_blank:
  assumes "line_matches (split_ws q) l"
  shows "strip l \<noteq> []"
proof -
  from assms obtain w where w: "w \<in> set (split_ws q)" "length w > 3" "py_in w (lower l)"
    by (auto simp: line_matches_iff)
  from w(2) obtain c where c: "c \<in> set w" by (cases w) auto
  with w have "\<not> is_space c" by (auto dest: split_ws_no_space)
  moreover from c w(3) have "c \<in> set (lower l)" by (auto dest: py_in_set)
  ultimately obtain d where "d \<in> set l" "\<not> is_space d"
    by (auto simp: lower_def is_space_lower_char)
  then show ?thesis by (auto simp: strip_Nil_iff)
qed

lemma first_relevant_None:
  "first_relevant ws ls i = None \<longleftrightarrow> (\<forall>l\<in>set ls. \<not> line_matches ws l)"
  by (induction ls arbitrary: i) auto

lemma first_relevant_Some:
  "k < length ls \<Longrightarrow> line_matches ws (ls ! k) \<Longrightarrow> \<forall>j<k. \<not> line_matches ws (ls ! j)
   \<Longrightarrow> first_relevant ws ls i = Some (i + k)"
proof (induction ls arbitrary: i k)
  case Nil
  then show ?case by simp
next
  case (Cons l ls)
  show ?case
  proof (cases k)
    case 0
    with Cons.prems show ?thesis by simp
  next
    case (Suc k')
    with Cons.prems have "\<not> line_matches ws l" by auto
    moreover have "first_relevant ws ls (Suc i) = Some (Suc i + k')"
      using Cons.prems Suc by (intro Cons.IH) auto
    ultimately show ?thesis using Suc by simp
  qed
qed

lemma length_words_in_content:
  "length acc < 8 \<Longrightarrow> length (words_in_content ls acc) \<le> 8"
proof (induction ls arbitrary: acc)
  case Nil
  then show ?case by simp
next
  case (Cons l ls)
  show ?case
  proof (cases "strip l \<noteq> [] \<and> length (strip l) > 20")
    case True
    show ?thesis
    proof (cases "length (acc @ [strip l]) \<ge> 8")
      case full: True
      with True Cons.prems show ?thesis by (simp add: Let_def)
    next
      case False
      then have "length (acc @ [strip l]) < 8" by simp
      then have "length (words_in_content ls (acc @ [strip l])) \<le> 8" by (rule Cons.IH)
      with True False show ?thesis by (simp add: Let_def)
    qed
  next
    case False
    have "length (words_in_content ls acc) \<le> 8" using Cons.prems by (rule Cons.IH)
    with False show ?thesis by auto
  qed
qed

lemma in_words_in_content:
  "x \<in> set (words_in_content ls acc) \<Longrightarrow>
   x \<in> set acc \<or> (\<exists>l\<in>set ls. x = strip l \<and> strip l \<noteq> [] \<and> length (strip l) > 20)"
proof (induction ls arbitrary: acc)
  case Nil
  then show ?case by simp
next
  case (Cons l ls)
  show ?case
  proof (cases "strip l \<noteq> [] \<and> length (strip l) > 20")
    case True
    show ?thesis
    proof (cases "length (acc @ [strip l]) \<ge> 8")
      case full: True
      with True Cons.prems have "x \<in> set (acc @ [strip l])" by (simp add: Let_def)
      with True show ?thesis by auto
    next
      case False
      with True Cons.prems have "x \<in> set (words_in_content ls (acc @ [strip l]))"
        by (simp add: Let_def)
      then have "x \<in> set (acc @ [strip l]) \<or>
          (\<exists>l\<in>set ls. x = strip l \<and> strip l \<noteq> [] \<and> length (strip l) > 20)"
        by (rule Cons.IH)
      with True show ?thesis by auto
    qed
  next
    case False
    with Cons.prems have "x \<in> set (words_in_content ls acc)" by auto
    then have "x \<in> set acc \<or> (\<exists>l\<in>set ls. x = strip l \<and> strip l \<noteq> [] \<and> length (strip l) > 20)"
      by (rule Cons.IH)
    then show ?thesis by auto
  qed
qed


text \<open>One step of the window loop of the excerpt extractor, and what its result is
  made of.\<close>


lemma extract_loop_blank:
  "strip l = [] \<Longrightarrow> extract_loop mode n (l # ls) acc = extract_loop mode n ls acc"
  by simp

lemma extract_loop_heading:
  "strip l \<noteq> [] \<Longrightarrow> is_heading (strip l) \<Longrightarrow> length acc > 3
   \<Longrightarrow> extract_loop mode n (l # ls) acc = acc"
  by simp

lemma extract_loop_collect:
  "strip l \<noteq> [] \<Longrightarrow> \<not> (is_heading (strip l) \<and> length acc > 3)
   \<Longrightarrow> extract_loop mode n (l # ls) acc =
     (if (mode = ''general'' \<and> endswith (strip l) ''.'' \<and> length (acc @ [strip l]) \<ge> 50)
         \<or> ((mode = ''examination'' \<or> mode = ''age_appropriate'')
              \<and> length (acc @ [strip l]) \<ge> n \<and> endswith (strip l) ''.'')
      then acc @ [strip l]
      else extract_loop mode n ls (acc @ [strip l]))"
  by (auto simp: Let_def)

lemma extract_loop_cases:
  obtains (blank) "strip l = []" "extract_loop mode n (l # ls) acc = extract_loop mode n ls acc"
  | (heading) "strip l \<noteq> []" "is_heading (strip l)" "length acc > 3"
      "extract_loop mode n (l # ls) acc = acc"
  | (stop) "strip l \<noteq> []" "extract_loop mode n (l # ls) acc = acc @ [strip l]"
  | (continue) "strip l \<noteq> []"
      "extract_loop mode n (l # ls) acc = extract_loop mode n ls (acc @ [strip l])"
proof (cases "strip l = []")
  case True
  then show ?thesis using blank extract_loop_blank by blast
next
  case nb: False
  show ?thesis
  proof (cases "is_heading (strip l) \<and> length acc > 3")
    case True
    then show ?thesis using nb heading extract_loop_heading by blast
  next
    case False
    from extract_loop_collect[OF nb False, of mode n ls]
    have "extract_loop mode n (l # ls) acc = acc @ [strip l]
       \<or> extract_loop mode n (l # ls) acc = extract_loop mode n ls (acc @ [strip l])"
      by presburger
    then show ?thesis using nb stop continue by blast
  qed
qed

lemma in_extract_loop:
  "x \<in> set (extract_loop mode n ls acc) \<Longrightarrow>
   x \<in> set acc \<or> (\<exists>l\<in>set ls. x = strip l \<and> strip l \<noteq> [])"
proof (induction ls arbitrary: acc)
  case Nil
  then show ?case by simp
next
  case (Cons l ls)
  show ?case
  proof (cases l mode n ls acc rule: extract_loop_cases)
    case blank
    with Cons.prems have "x \<in> set (extract_loop mode n ls acc)" by simp
    then have "x \<in> set acc \<or> (\<exists>l\<in>set ls. x = strip l \<and> strip l \<noteq> [])" by (rule Cons.IH)
    then show ?thesis by auto
  next
    case heading
    with Cons.prems show ?thesis by simp
  next
    case stop
    with Cons.prems have "x \<in> set (acc @ [strip l])" by simp
    with stop(1) show ?thesis by auto
  next
    case continue
    with Cons.prems have "x \<in> set (extract_loop mode n ls (acc @ [strip l]))" by simp
    then have "x \<in> set (acc @ [strip l]) \<or> (\<exists>l\<in>set ls. x = strip l \<and> strip l \<noteq> [])"
      by (rule Cons.IH)
    with continue(1) show ?thesis by auto
  qed
qed

lemma extract_loop_prefix: "\<exists>rest. extract_loop mode n ls acc = acc @ rest"
proof (induction ls arbitrary: acc)
  case Nil
  then show ?case by simp
next
  case (Cons l ls)
  show ?case
  proof (cases l mode n ls acc rule: extract_loop_cases)
    case blank
    then show ?thesis using Cons.IH[of acc] by simp
  next
    case heading
    then show ?thesis by simp
  next
    case stop
    then show ?thesis by simp
  next
    case continue
    obtain r where "extract_loop mode n ls (acc @ [strip l]) = (acc @ [strip l]) @ r"
      using Cons.IH by blast
    with continue show ?thesis by simp
  qed
qed

lemma extract_loop_first:
  "\<forall>b\<in>set bs. strip b = [] \<Longrightarrow> strip l \<noteq> []
   \<Longrightarrow> \<exists>rest. extract_loop mode n (bs @ l # tl_lines) [] = strip l # rest"
proof (induction bs)
  case Nil
  have nh: "\<not> (is_heading (strip l) \<and> length ([]::string list) > 3)" by simp
  obtain r where r: "extract_loop mode n tl_lines ([] @ [strip l]) = ([] @ [strip l]) @ r"
    using extract_loop_prefix by blast
  show ?case
    using extract_loop_collect[OF Nil(2) nh, of mode n tl_lines] r
    by (simp del: extract_loop.simps split: if_splits)
next
  case (Cons b bs)
  then have "strip b = []" by simp
  then have "extract_loop mode n ((b # bs) @ l # tl_lines) [] = extract_loop mode n (bs @ l # tl_lines) []"
    by simp
  with Cons show ?case by simp
qed


section \<open>Facts about runs of newlines\<close>

text \<open>A join of trimmed lines has no two adjacent newlines, and the replacement of three
  newlines by two leaves such a string as it is.\<close>


lemma startswith_Cons_Cons [simp]:
  "startswith (c # cs) (d # ds) \<longleftrightarrow> c = d \<and> startswith cs ds"
  by (simp add: startswith_def)

lemma startswith_Nil_Cons [simp]: "\<not> startswith [] (d # ds)"
  by (simp add: startswith_def)

lemma py_in_skip: "c \<noteq> d \<Longrightarrow> py_in (d # p) (c # cs) = py_in (d # p) cs"
  by simp

lemma py_in_skip_append: "d \<notin> set l \<Longrightarrow> py_in (d # p) (l @ r) = py_in (d # p) r"
  by (induction l) auto

lemma py_in_free: "d \<notin> set l \<Longrightarrow> \<not> py_in (d # p) l"
  using py_in_skip_append[of d l p "[]"] by simp

lemma startswith_append_free:
  "set p \<inter> set t = {} \<Longrightarrow> startswith (q @ t) p \<longleftrightarrow> startswith q p"
proof (induction q arbitrary: p)
  case Nil
  then show ?case by (cases p; cases t) auto
next
  case (Cons c q)
  then show ?case by (cases p) auto
qed

lemma py_in_append_free:
  "p \<noteq> [] \<Longrightarrow> set p \<inter> set t = {} \<Longrightarrow> py_in p (q @ t) \<longleftrightarrow> py_in p q"
proof (induction q)
  case Nil
  then obtain d ds where p: "p = d # ds" by (cases p) auto
  with Nil have "d \<notin> set t" by auto
  then show ?case using p by (simp add: py_in_free)
next
  case (Cons c q)
  have "startswith ((c # q) @ t) p \<longleftrightarrow> startswith (c # q) p"
    using Cons.prems(2) by (rule startswith_append_free)
  with Cons show ?case by simp
qed

lemma py_in_NL3_NL2: "py_in [NL, NL, NL] s \<Longrightarrow> py_in [NL, NL] s"
proof (induction s)
  case Nil
  then show ?case by simp
next
  case (Cons c s)
  then show ?case by (cases s) auto
qed

lemma join_nl_no_NL2:
  "\<forall>x\<in>set xs. trimmed_line x \<Longrightarrow> \<not> py_in [NL, NL] (join_nl xs)"
proof (induction xs rule: join_nl.induct)
  case 1
  then show ?case by simp
next
  case (2 l)
  then have "NL \<notin> set l" by (simp add: trimmed_line_def)
  then show ?case by (simp add: py_in_free)
next
  case (3 l m ls)
  let ?J = "join_nl (m # ls)"
  from 3 have l: "NL \<notin> set l" and m: "trimmed_line m" by (simp_all add: trimmed_line_def)
  from m have "hd ?J = hd m" by (simp add: hd_join_nl trimmed_line_def)
  moreover have "hd m \<noteq> NL" using m is_space_NL by (auto simp: trimmed_line_def)
  ultimately have "\<not> startswith ?J [NL]" by (cases ?J) auto
  moreover have "\<not> py_in [NL, NL] ?J" using 3 by simp
  ultimately have "\<not> py_in [NL, NL] (NL # ?J)" by simp
  then have "\<not> py_in [NL, NL] (l @ NL # ?J)" using py_in_skip_append[OF l, of "[NL]" "NL # ?J"] by simp
  then show ?case by simp
qed

lemma replace_nl3_id: "\<not> py_in [NL, NL] s \<Longrightarrow> replace_nl3 s = s"
proof (induction s rule: replace_nl3.induct)
  case (1 a b c cs)
  then show ?case by auto
qed simp_all

lemma set_slice_subset: "set (slice xs a b) \<subseteq> set xs"
  unfolding slice_def by (meson set_take_subset set_drop_subset subset_trans)


section \<open>The result of the excerpt extractor\<close>

text \<open>The lines the extractor joins are trimmed, so for a non-empty corpus the result is
  their join, or the pointer message when there are none.\<close>


lemma trimmed_excerpt_lines:
  assumes "x \<in> set (excerpt_lines pdf_content question mode marks age)"
  shows "trimmed_line x"
proof -
  let ?lines = "split_nl pdf_content"
  let ?found = "relevant_lines ?lines (split_ws (lower question)) mode marks age"
  have "\<exists>l\<in>set ?lines. x = strip l \<and> strip l \<noteq> []"
  proof (cases "?found = []")
    case True
    with assms have "x \<in> set (words_in_content (take 50 ?lines) [])"
      by (simp add: excerpt_lines_def Let_def)
    then have "\<exists>l\<in>set (take 50 ?lines). x = strip l \<and> strip l \<noteq> [] \<and> length (strip l) > 20"
      using in_words_in_content[of x "take 50 ?lines" "[]"] by simp
    then show ?thesis by (auto dest: in_set_takeD)
  next
    case False
    with assms have x: "x \<in> set ?found" by (simp add: excerpt_lines_def Let_def)
    then obtain w where "x \<in> set (extract_loop mode (lines_needed mode marks age) (slice ?lines (fst w) (snd w)) [])"
      by (cases "first_relevant (split_ws (lower question)) ?lines 0")
         (auto simp: relevant_lines_def Let_def intro: that[of "(a, b)" for a b])
    then have "\<exists>l\<in>set (slice ?lines (fst w) (snd w)). x = strip l \<and> strip l \<noteq> []"
      using in_extract_loop[of x mode _ "slice ?lines (fst w) (snd w)" "[]"] by simp
    then show ?thesis using set_slice_subset[of ?lines "fst w" "snd w"] by auto
  qed
  then obtain l where "l \<in> set ?lines" "x = strip l" "strip l \<noteq> []" by blast
  then show ?thesis by (simp add: trimmed_strip split_nl_no_NL)
qed

lemma replace_join_excerpt:
  "replace_nl3 (join_nl (excerpt_lines pdf_content question mode marks age))
     = join_nl (excerpt_lines pdf_content question mode marks age)"
  by (intro replace_nl3_id join_nl_no_NL2 ballI trimmed_excerpt_lines)

lemma excerpt_result:
  assumes "pdf_content \<noteq> []"
  shows "extract_relevant_content pdf_content question mode marks age =
     (if excerpt_lines pdf_content question mode marks age = [] then pointer_message question
      else join_nl (excerpt_lines pdf_content question mode marks age))"
proof (cases "excerpt_lines pdf_content question mode marks age = []")
  case True
  then show ?thesis using assms
    by (simp add: extract_relevant_content_def strip_def)
next
  case False
  let ?E = "excerpt_lines pdf_content question mode marks age"
  have t: "\<forall>x\<in>set ?E. trimmed_line x" by (simp add: trimmed_excerpt_lines)
  then have ne: "\<forall>x\<in>set ?E. x \<noteq> []" by (simp add: trimmed_line_def)
  have "strip (join_nl ?E) = join_nl ?E" using False t by (rule strip_join_nl)
  moreover have "join_nl ?E \<noteq> []" using False ne by (rule join_nl_not_Nil)
  ultimately show ?thesis using assms False
    by (simp add: extract_relevant_content_def replace_join_excerpt)
qed

lemma split_excerpt_result:
  assumes "pdf_content \<noteq> []" "excerpt_lines pdf_content question mode marks age \<noteq> []"
  shows "split_nl (extract_relevant_content pdf_content question mode marks age)
     = excerpt_lines pdf_content question mode marks age"
proof -
  have "\<forall>x\<in>set (excerpt_lines pdf_content question mode marks age). NL \<notin> set x"
    using trimmed_excerpt_lines by (auto simp: trimmed_line_def)
  with assms show ?thesis by (simp add: excerpt_result split_nl_join_nl)
qed


text \<open>Which of its three forms the result takes, and the first line collected from a
  window that reaches the matching line.\<close>


lemma no_content_no_NL: "\<not> py_in [NL, NL, NL] no_content_message"
  by (rule py_in_free) (simp add: no_content_message_def NL_def)

lemma pointer_message_NL3:
  "py_in [NL, NL, NL] (pointer_message question) \<longleftrightarrow> py_in [NL, NL, NL] question"
proof -
  let ?p = "''Content related to '' @ [CHR 0x27]"
  let ?t = "[CHR 0x27] @
     '' can be found in your uploaded PDF. Please use the search feature for more specific results.''"
  have p: "NL \<notin> set ?p" by (simp add: NL_def)
  have t: "set [NL, NL, NL] \<inter> set ?t = {}" by (simp add: NL_def)
  have "pointer_message question = ?p @ (question @ ?t)" by (simp add: pointer_message_def)
  then have "py_in [NL, NL, NL] (pointer_message question) = py_in [NL, NL, NL] (question @ ?t)"
    using py_in_skip_append[OF p, of "[NL, NL]" "question @ ?t"] by simp
  also have "\<dots> = py_in [NL, NL, NL] question"
    by (rule py_in_append_free[OF _ t]) simp
  finally show ?thesis .
qed

lemma excerpt_result_cases:
  "extract_relevant_content pdf_content question mode marks age = no_content_message
   \<or> extract_relevant_content pdf_content question mode marks age = pointer_message question
   \<or> extract_relevant_content pdf_content question mode marks age
        = join_nl (excerpt_lines pdf_content question mode marks age)"
proof (cases "pdf_content = []")
  case True
  then show ?thesis by (simp add: extract_relevant_content_def)
next
  case False
  then show ?thesis by (simp add: excerpt_result)
qed

lemma join_excerpt_no_NL3:
  "\<not> py_in [NL, NL, NL] (join_nl (excerpt_lines pdf_content question mode marks age))"
  using join_nl_no_NL2[of "excerpt_lines pdf_content question mode marks age"]
    trimmed_excerpt_lines py_in_NL3_NL2 by blast

lemma extract_loop_window:
  assumes "start \<le> i" "i < length lines" "i - start < m" "strip (lines ! i) \<noteq> []"
  shows "\<exists>k rest. start \<le> k \<and> k \<le> i
     \<and> (\<forall>j. start \<le> j \<and> j < k \<longrightarrow> strip (lines ! j) = [])
     \<and> strip (lines ! k) \<noteq> []
     \<and> extract_loop mode n (take m (drop start lines)) [] = strip (lines ! k) # rest"
proof -
  define P where "P j \<longleftrightarrow> start \<le> j \<and> strip (lines ! j) \<noteq> []" for j
  define k where "k = (LEAST j. P j)"
  have Pi: "P i" using assms by (simp add: P_def)
  then have Pk: "P k" unfolding k_def by (rule LeastI)
  have ki: "k \<le> i" unfolding k_def using Pi by (rule Least_le)
  have least: "\<not> P j" if "j < k" for j
    using that not_less_Least unfolding k_def by blast
  let ?W = "take m (drop start lines)"
  have kW: "k - start < length ?W" using Pk ki assms by (auto simp: P_def)
  have nthW: "?W ! j = lines ! (start + j)" if "j < length ?W" for j
  proof -
    from that have jm: "j < m" and "j < length lines - start" by simp_all
    then have "start \<le> length lines" by arith
    with jm show ?thesis by (simp add: nth_drop)
  qed
  have Wk: "?W ! (k - start) = lines ! k" using nthW[OF kW] Pk by (simp add: P_def)
  have blanks: "\<forall>b\<in>set (take (k - start) ?W). strip b = []"
  proof
    fix b assume "b \<in> set (take (k - start) ?W)"
    then obtain j where j: "j < length (take (k - start) ?W)" "b = take (k - start) ?W ! j"
      by (auto simp: in_set_conv_nth)
    then have jk: "j < k - start" and jW: "j < length ?W" by simp_all
    from j jk have "b = ?W ! j" by simp
    also have "\<dots> = lines ! (start + j)" using jW by (rule nthW)
    finally have b: "b = lines ! (start + j)" .
    from jk have "start + j < k" by simp
    then have "\<not> P (start + j)" by (rule least)
    then show "strip b = []" by (simp add: P_def b)
  qed
  have "?W = take (k - start) ?W @ ?W ! (k - start) # drop (Suc (k - start)) ?W"
    using kW by (rule id_take_nth_drop)
  then have W: "?W = take (k - start) ?W @ lines ! k # drop (Suc (k - start)) ?W"
    by (simp only: Wk)
  from Pk have nb: "strip (lines ! k) \<noteq> []" by (simp add: P_def)
  obtain rest where "extract_loop mode n (take (k - start) ?W @ lines ! k # drop (Suc (k - start)) ?W) []
      = strip (lines ! k) # rest"
    using extract_loop_first[OF blanks nb] by blast
  with W have "extract_loop mode n ?W [] = strip (lines ! k) # rest" by simp
  moreover have "\<forall>j. start \<le> j \<and> j < k \<longrightarrow> strip (lines ! j) = []"
    using least by (auto simp: P_def)
  ultimately show ?thesis using Pk ki nb by (auto simp: P_def)
qed

lemma relevant_lines_first:
  assumes "i < length lines" "line_matches (split_ws q) (lines ! i)"
    and "\<forall>j<i. \<not> line_matches (split_ws q) (lines ! j)"
  shows "\<exists>k rest. nat (max 0 (int i - 2)) \<le> k \<and> k \<le> i
     \<and> (\<forall>j. nat (max 0 (int i - 2)) \<le> j \<and> j < k \<longrightarrow> strip (lines ! j) = [])
     \<and> strip (lines ! k) \<noteq> []
     \<and> relevant_lines lines (split_ws q) mode marks age = strip (lines ! k) # rest"
proof -
  let ?start = "nat (max 0 (int i - 2))"
  let ?n = "lines_needed mode marks age"
  let ?m = "min (length lines) (?start + ?n + 5) - ?start"
  have f: "first_relevant (split_ws q) lines 0 = Some i"
    using first_relevant_Some[OF assms, of 0] by simp
  have r: "relevant_lines lines (split_ws q) mode marks age
      = extract_loop mode ?n (take ?m (drop ?start lines)) []"
    by (simp add: relevant_lines_def f Let_def slice_def)
  have "?start \<le> i" by simp
  moreover have "i - ?start < ?m" using assms(1) by auto
  moreover have "strip (lines ! i) \<noteq> []" using assms(2) by (rule line_matches_not_blank)
  ultimately show ?thesis
    unfolding r using assms(1) by (intro extract_loop_window)
qed


section \<open>Facts about the expansion extractor\<close>

text \<open>One step of the expansion loop, the index of the anchor line, and the lines the
  loop collects.\<close>


lemma expand_loop_blank:
  "strip l = [] \<Longrightarrow> expand_loop mode n (l # ls) acc = expand_loop mode n ls acc"
  by simp

lemma expand_loop_heading:
  "strip l \<noteq> [] \<Longrightarrow> is_heading (strip l) \<Longrightarrow> expand_loop mode n (l # ls) acc = acc"
  by (auto simp: is_heading_def Let_def)

lemma expand_loop_collect:
  "strip l \<noteq> [] \<Longrightarrow> \<not> is_heading (strip l)
   \<Longrightarrow> expand_loop mode n (l # ls) acc =
     (if ((mode = ''examination'' \<or> mode = ''age_appropriate'')
              \<and> length (acc @ [strip l]) \<ge> n \<and> endswith (strip l) ''.'')
         \<or> (mode = ''general'' \<and> endswith (strip l) ''.'' \<and> length (acc @ [strip l]) \<ge> 50)
      then acc @ [strip l]
      else expand_loop mode n ls (acc @ [strip l]))"
  by (auto simp: Let_def is_heading_def)

lemma expand_loop_cases:
  obtains (blank) "strip l = []" "expand_loop mode n (l # ls) acc = expand_loop mode n ls acc"
  | (heading) "strip l \<noteq> []" "is_heading (strip l)" "expand_loop mode n (l # ls) acc = acc"
  | (stop) "strip l \<noteq> []" "expand_loop mode n (l # ls) acc = acc @ [strip l]"
  | (continue) "strip l \<noteq> []"
      "expand_loop mode n (l # ls) acc = expand_loop mode n ls (acc @ [strip l])"
proof (cases "strip l = []")
  case True
  then show ?thesis using blank expand_loop_blank by blast
next
  case nb: False
  show ?thesis
  proof (cases "is_heading (strip l)")
    case True
    then show ?thesis using nb heading expand_loop_heading by blast
  next
    case False
    from expand_loop_collect[OF nb False, of mode n ls acc]
    have "expand_loop mode n (l # ls) acc = acc @ [strip l]
       \<or> expand_loop mode n (l # ls) acc = expand_loop mode n ls (acc @ [strip l])"
      by presburger
    then show ?thesis using nb stop continue by blast
  qed
qed

lemma in_expand_loop:
  "x \<in> set (expand_loop mode n ls acc) \<Longrightarrow>
   x \<in> set acc \<or> (\<exists>l\<in>set ls. x = strip l \<and> strip l \<noteq> [])"
proof (induction ls arbitrary: acc)
  case Nil
  then show ?case by simp
next
  case (Cons l ls)
  show ?case
  proof (cases l mode n ls acc rule: expand_loop_cases)
    case blank
    with Cons.prems have "x \<in> set (expand_loop mode n ls acc)" by simp
    then have "x \<in> set acc \<or> (\<exists>l\<in>set ls. x = strip l \<and> strip l \<noteq> [])" by (rule Cons.IH)
    then show ?thesis by auto
  next
    case heading
    with Cons.prems show ?thesis by simp
  next
    case stop
    with Cons.prems have "x \<in> set (acc @ [strip l])" by simp
    with stop(1) show ?thesis by auto
  next
    case continue
    with Cons.prems have "x \<in> set (expand_loop mode n ls (acc @ [strip l]))" by simp
    then have "x \<in> set (acc @ [strip l]) \<or> (\<exists>l\<in>set ls. x = strip l \<and> strip l \<noteq> [])"
      by (rule Cons.IH)
    with continue(1) show ?thesis by auto
  qed
qed

lemma context_line_none:
  "context_line ls a i = - 1 \<longleftrightarrow> (\<forall>l\<in>set ls. \<not> py_in a l)"
  by (induction ls arbitrary: i) auto

lemma context_line_first:
  "k < length ls \<Longrightarrow> py_in a (ls ! k) \<Longrightarrow> \<forall>j<k. \<not> py_in a (ls ! j)
   \<Longrightarrow> context_line ls a i = int (i + k)"
proof (induction ls arbitrary: i k)
  case Nil
  then show ?case by simp
next
  case (Cons l ls)
  show ?case
  proof (cases k)
    case 0
    with Cons.prems show ?thesis by simp
  next
    case (Suc k')
    with Cons.prems have "\<not> py_in a l" by auto
    moreover have "context_line ls a (Suc i) = int (Suc i + k')"
      using Cons.prems Suc by (intro Cons.IH) auto
    ultimately show ?thesis using Suc by simp
  qed
qed

lemma in_slice_after:
  assumes "x \<in> set (slice lines (Suc k) e)"
  shows "\<exists>j. k < j \<and> j < length lines \<and> x = lines ! j"
proof -
  from assms have "x \<in> set (drop (Suc k) lines)" by (auto simp: slice_def dest: in_set_takeD)
  then obtain j where "j < length (drop (Suc k) lines)" "x = drop (Suc k) lines ! j"
    by (auto simp: in_set_conv_nth)
  then have "Suc k + j < length lines" "x = lines ! (Suc k + j)" by (auto simp: nth_drop)
  then show ?thesis by (intro exI[of _ "Suc k + j"]) simp
qed

lemma in_expanded_lines:
  assumes "x \<in> set (expanded_lines lines k mode marks age)"
  shows "\<exists>j. k < j \<and> j < length lines \<and> x = strip (lines ! j) \<and> strip (lines ! j) \<noteq> []"
proof -
  let ?W = "slice lines (Suc k) (min (length lines) (Suc k + lines_needed_expanded mode marks age + 10))"
  from assms have "x \<in> set (expand_loop mode (lines_needed_expanded mode marks age) ?W [])"
    by (simp add: expanded_lines_def Let_def)
  then obtain l where l: "l \<in> set ?W" "x = strip l" "strip l \<noteq> []"
    using in_expand_loop[of x mode _ ?W "[]"] by auto
  from in_slice_after[OF l(1)] obtain j where j: "k < j" "j < length lines" "l = lines ! j"
    by blast
  have "k < j \<and> j < length lines \<and> x = strip (lines ! j) \<and> strip (lines ! j) \<noteq> []"
    using j l(2,3) by simp
  then show ?thesis ..
qed

lemma expanded_content_found:
  assumes "0 < pn" "pn \<le> int (length pages)" "find_page pages pn \<noteq> []"
    and "context_line (split_nl (find_page pages pn)) (strip context) 0 = int k"
  shows "get_expanded_content pages pn context mode marks age =
     (if length (expanded_lines (split_nl (find_page pages pn)) k mode marks age) < 3
      then context @ [NL, NL] @ join_nl (expanded_lines (split_nl (find_page pages pn)) k mode marks age)
      else join_nl (expanded_lines (split_nl (find_page pages pn)) k mode marks age))"
  using assms by (simp add: get_expanded_content_def Let_def)

lemma trimmed_expanded_lines:
  assumes "x \<in> set (expanded_lines (split_nl s) k mode marks age)"
  shows "trimmed_line x"
proof -
  from in_expanded_lines[OF assms] obtain j where j: "j < length (split_nl s)"
      "x = strip (split_nl s ! j)" "strip (split_nl s ! j) \<noteq> []"
    by blast
  from j(1) have "split_nl s ! j \<in> set (split_nl s)" by simp
  then have "NL \<notin> set (split_nl s ! j)" by (rule split_nl_no_NL)
  then show ?thesis unfolding j(2) using j(3) by (rule trimmed_strip)
qed

lemma join_nl_not_blank:
  assumes "xs \<noteq> []" "\<forall>x\<in>set xs. trimmed_line x" "\<forall>c\<in>set s. is_space c"
  shows "join_nl xs \<noteq> s"
proof
  assume eq: "join_nl xs = s"
  obtain y ys where xs: "xs = y # ys" using assms(1) by (cases xs) auto
  with assms(2) have y: "y \<noteq> []" "\<not> is_space (hd y)" by (simp_all add: trimmed_line_def)
  have ne: "join_nl xs \<noteq> []"
    using assms(1,2) by (intro join_nl_not_Nil) (auto simp: trimmed_line_def)
  have "hd (join_nl xs) = hd y" using y(1) xs by (simp add: hd_join_nl)
  moreover have "hd (join_nl xs) \<in> set (join_nl xs)" using ne by simp
  ultimately have "hd y \<in> set s" using eq by simp
  with assms(3) y(2) show False by blast
qed


section \<open>Facts about the search\<close>






section \<open>Mode policy: the table\<close>

text \<open>
  C1. The line count computed by each of the two extractors is a total function of
  mode, marks and age, and equals the table entry for every input: 10, 20, 30, 30 for
  examination by marks band, 10, 20, 30, 20 for age band, 50 for general, and 10 for any
  other mode or a missing parameter.
\<close>

theorem lines_needed_matches_table:
  "lines_needed mode marks age = policy_table mode marks age \<and>
   lines_needed_expanded mode marks age = policy_table mode marks age"
  by (cases marks; cases age)
     (simp_all add: lines_needed_def lines_needed_expanded_def policy_table_def truthy_def
        band_of_def)

text \<open>The boundary values 5, 6, 10, 11, 15, 16 of marks and age, and the defaults.\<close>

theorem lines_needed_boundaries:
  "map (\<lambda>m. lines_needed ''examination'' (Some m) None) [5, 6, 10, 11, 15, 16]
     = [10, 20, 20, 30, 30, 30] \<and>
   map (\<lambda>a. lines_needed ''age_appropriate'' None (Some a)) [5, 6, 10, 11, 15, 16]
     = [10, 20, 20, 30, 30, 20] \<and>
   map (\<lambda>m. lines_needed_expanded ''examination'' (Some m) None) [5, 6, 10, 11, 15, 16]
     = [10, 20, 20, 30, 30, 30] \<and>
   map (\<lambda>a. lines_needed_expanded ''age_appropriate'' None (Some a)) [5, 6, 10, 11, 15, 16]
     = [10, 20, 20, 30, 30, 20] \<and>
   lines_needed ''general'' None None = 50 \<and>
   lines_needed_expanded ''general'' (Some 3) (Some 4) = 50 \<and>
   lines_needed ''examination'' None (Some 12) = 10 \<and>
   lines_needed_expanded ''age_appropriate'' (Some 12) None = 10 \<and>
   lines_needed ''revision'' (Some 12) (Some 12) = 10 \<and>
   lines_needed_expanded [] None None = 10"
  using lines_needed_matches_table
  by (simp add: policy_table_def band_of_def)


section \<open>Excerpt extractor: the fallback when no line matches\<close>

text \<open>
  C2, as amended. For a non-empty corpus and a query none of whose words of length above 3
  occurs (case-insensitively) in any corpus line, the extractor collects at most 8 lines,
  each the trimmed text of one of the first 50 lines of the document, non-blank and longer
  than 20 characters. The returned string consists of exactly these lines when there is at
  least one, and is the pointer message naming the query when there is none.
\<close>

theorem fallback_excerpt:
  assumes "pdf_content \<noteq> []"
    and "\<forall>line\<in>set (split_nl pdf_content). \<forall>word\<in>set (split_ws (lower question)).
           length word > 3 \<longrightarrow> \<not> py_in word (lower line)"
  shows "length (excerpt_lines pdf_content question mode marks age) \<le> 8 \<and>
     (\<forall>x\<in>set (excerpt_lines pdf_content question mode marks age).
        x \<noteq> [] \<and> length x > 20 \<and> (\<exists>line\<in>set (take 50 (split_nl pdf_content)). x = strip line)) \<and>
     (excerpt_lines pdf_content question mode marks age \<noteq> [] \<longrightarrow>
        split_nl (extract_relevant_content pdf_content question mode marks age)
          = excerpt_lines pdf_content question mode marks age) \<and>
     (excerpt_lines pdf_content question mode marks age = [] \<longrightarrow>
        extract_relevant_content pdf_content question mode marks age = pointer_message question)"
proof -
  let ?lines = "split_nl pdf_content"
  let ?ws = "split_ws (lower question)"
  have "\<forall>l\<in>set ?lines. \<not> line_matches ?ws l" using assms(2) by (auto simp: line_matches_iff)
  then have "first_relevant ?ws ?lines 0 = None" by (simp add: first_relevant_None)
  then have E: "excerpt_lines pdf_content question mode marks age
      = words_in_content (take 50 ?lines) []"
    by (simp add: excerpt_lines_def relevant_lines_def)
  have "length (words_in_content (take 50 ?lines) []) \<le> 8"
    by (rule length_words_in_content) simp
  moreover have "\<forall>x\<in>set (words_in_content (take 50 ?lines) []).
        x \<noteq> [] \<and> length x > 20 \<and> (\<exists>line\<in>set (take 50 ?lines). x = strip line)"
    using in_words_in_content[of _ "take 50 ?lines" "[]"] by fastforce
  ultimately have a: "length (excerpt_lines pdf_content question mode marks age) \<le> 8"
    and b: "\<forall>x\<in>set (excerpt_lines pdf_content question mode marks age).
        x \<noteq> [] \<and> length x > 20 \<and> (\<exists>line\<in>set (take 50 ?lines). x = strip line)"
    by (simp_all only: E)
  have c: "excerpt_lines pdf_content question mode marks age \<noteq> [] \<longrightarrow>
        split_nl (extract_relevant_content pdf_content question mode marks age)
          = excerpt_lines pdf_content question mode marks age"
    using split_excerpt_result[OF assms(1), of question mode marks age] by blast
  have d: "excerpt_lines pdf_content question mode marks age = [] \<longrightarrow>
        extract_relevant_content pdf_content question mode marks age = pointer_message question"
    using excerpt_result[OF assms(1), of question mode marks age] by simp
  from a b c d show ?thesis by blast
qed

text \<open>A three-line document and a query that matches nothing: the one long line is
  returned, trimmed.\<close>

theorem fallback_excerpt_witness:
  "split_nl (extract_relevant_content
      (''Short line'' @ [NL] @ ''  This line is long enough to be kept.  '' @ [NL] @ ''Tiny'')
      ''zebra crossing'' ''general'' None None)
     = [''This line is long enough to be kept.'']"
proof -
  let ?pdf = "''Short line'' @ [NL] @ ''  This line is long enough to be kept.  '' @ [NL] @ ''Tiny''"
  have h1: "?pdf \<noteq> []" by simp
  have h2: "\<forall>line\<in>set (split_nl ?pdf). \<forall>word\<in>set (split_ws (lower ''zebra crossing'')).
           length word > 3 \<longrightarrow> \<not> py_in word (lower line)"
    by code_simp
  have E: "excerpt_lines ?pdf ''zebra crossing'' ''general'' None None
      = [''This line is long enough to be kept.'']"
    by code_simp
  have ne: "excerpt_lines ?pdf ''zebra crossing'' ''general'' None None \<noteq> []"
    by (simp only: E) simp
  from fallback_excerpt[OF h1 h2, of "''general''" None None]
  have "split_nl (extract_relevant_content ?pdf ''zebra crossing'' ''general'' None None)
      = excerpt_lines ?pdf ''zebra crossing'' ''general'' None None"
    using ne by blast
  then show ?thesis by (simp only: E)
qed

text \<open>
  C2, as stated, fails. The only word of the query \<open>cell\<close> has length 4, so no query word
  of length above 4 occurs anywhere, yet the first line matches and a window around it is
  returned, whose first line has 14 characters. And where the fallback finds no line longer
  than 20 characters, the pointer message is returned, which is no line of the document.
\<close>

theorem fallback_excerpt_counterexample:
  "split_ws (lower ''cell'') = [''cell''] \<and> length ''cell'' = 4 \<and>
   extract_relevant_content (''The cell wall.'' @ [NL] @ ''It is rigid.'') ''cell'' ''general'' None None
     = ''The cell wall.'' @ [NL] @ ''It is rigid.'' \<and>
   length ''The cell wall.'' = 14 \<and>
   split_ws (lower ''zebra'') = [''zebra''] \<and>
   py_in ''zebra'' (lower ''Short line'') = False \<and>
   extract_relevant_content ''Short line'' ''zebra'' ''general'' None None = pointer_message ''zebra''"
proof (intro conjI)
  show "split_ws (lower ''cell'') = [''cell'']" by code_simp
  show "length ''cell'' = 4" by simp
  show "extract_relevant_content (''The cell wall.'' @ [NL] @ ''It is rigid.'') ''cell'' ''general'' None None
     = ''The cell wall.'' @ [NL] @ ''It is rigid.''" by code_simp
  show "length ''The cell wall.'' = 14" by simp
  show "split_ws (lower ''zebra'') = [''zebra'']" by code_simp
  show "py_in ''zebra'' (lower ''Short line'') = False" by code_simp
  show "extract_relevant_content ''Short line'' ''zebra'' ''general'' None None = pointer_message ''zebra''"
    by code_simp
qed


section \<open>Excerpt extractor: the window around the first match\<close>

text \<open>
  C3, as amended. Let \<open>i\<close> be the index of the first corpus line that contains a query
  word of length above 3. The collection window starts at \<open>max 0 (i - 2)\<close>, which is
  \<open>i - 2\<close> for \<open>i \<ge> 2\<close> and \<open>0\<close> for \<open>i < 2\<close>, and the first line of the
  returned excerpt is the trimmed text of the first non-blank line at or after that index, a
  line at index \<open>k\<close> with \<open>max 0 (i - 2) \<le> k \<le> i\<close>. So the excerpt starts with the
  trimmed line \<open>i - 2\<close> whenever \<open>i \<ge> 2\<close> and that line is not blank.
\<close>

theorem excerpt_leading_context:
  assumes "i < length (split_nl pdf_content)"
    and "line_matches (split_ws (lower question)) (split_nl pdf_content ! i)"
    and "\<forall>j<i. \<not> line_matches (split_ws (lower question)) (split_nl pdf_content ! j)"
  shows "\<exists>k rest. nat (max 0 (int i - 2)) \<le> k \<and> k \<le> i
     \<and> (\<forall>j. nat (max 0 (int i - 2)) \<le> j \<and> j < k \<longrightarrow> strip (split_nl pdf_content ! j) = [])
     \<and> strip (split_nl pdf_content ! k) \<noteq> []
     \<and> split_nl (extract_relevant_content pdf_content question mode marks age)
          = strip (split_nl pdf_content ! k) # rest"
proof -
  let ?lines = "split_nl pdf_content"
  let ?ws = "split_ws (lower question)"
  let ?E = "excerpt_lines pdf_content question mode marks age"
  obtain k rest where k: "nat (max 0 (int i - 2)) \<le> k" "k \<le> i"
      "\<forall>j. nat (max 0 (int i - 2)) \<le> j \<and> j < k \<longrightarrow> strip (?lines ! j) = []"
      "strip (?lines ! k) \<noteq> []"
    and r: "relevant_lines ?lines ?ws mode marks age = strip (?lines ! k) # rest"
    using relevant_lines_first[OF assms, of mode marks age] by blast
  from r have E: "?E = strip (?lines ! k) # rest"
    by (simp add: excerpt_lines_def)
  have ne: "pdf_content \<noteq> []"
  proof
    assume "pdf_content = []"
    with assms(1,2) have "line_matches ?ws []" by simp
    then have "strip [] \<noteq> []" by (rule line_matches_not_blank)
    then show False by (simp add: strip_def)
  qed
  from E have "?E \<noteq> []" by simp
  with ne have "split_nl (extract_relevant_content pdf_content question mode marks age) = ?E"
    by (rule split_excerpt_result)
  with E k show ?thesis by auto
qed

text \<open>A one-page document as the PDF reader assembles it: the match is at index 2, line 0
  is blank, and the excerpt starts with the page marker at index 1.\<close>

theorem excerpt_leading_context_witness:
  "\<exists>rest. split_nl (extract_relevant_content
       ([NL] @ ''--- Page 1 ---'' @ [NL] @ ''Light energy is converted.'' @ [NL])
       ''light energy'' ''general'' None None)
     = ''--- Page 1 ---'' # rest"
proof -
  define pdf where "pdf = [NL] @ ''--- Page 1 ---'' @ [NL] @ ''Light energy is converted.'' @ [NL]"
  define L where "L = split_nl pdf"
  define ws where "ws = split_ws (lower ''light energy'')"
  define R where "R = split_nl (extract_relevant_content pdf ''light energy'' ''general'' None None)"
  have s0: "strip (L ! 0) = []" unfolding L_def pdf_def by code_simp
  have s1: "strip (L ! 1) = ''--- Page 1 ---''" unfolding L_def pdf_def by code_simp
  have h1: "2 < length L" unfolding L_def pdf_def by code_simp
  have h2: "line_matches ws (L ! 2)" unfolding L_def pdf_def ws_def by code_simp
  have m0: "\<not> line_matches ws (L ! 0)" unfolding L_def pdf_def ws_def by code_simp
  have m1: "\<not> line_matches ws (L ! 1)" unfolding L_def pdf_def ws_def by code_simp
  have h3: "\<forall>j<2. \<not> line_matches ws (L ! j)"
  proof (intro allI impI)
    fix j :: nat assume "j < 2"
    then have "j = 0 \<or> j = 1" by arith
    then show "\<not> line_matches ws (L ! j)" using m0 m1 by blast
  qed
  have start: "nat (max 0 (int 2 - 2)) = 0" by simp
  from excerpt_leading_context[of 2 pdf "''light energy''" "''general''" None None]
    h1 h2 h3
  have "\<exists>k rest. nat (max 0 (int 2 - 2)) \<le> k \<and> k \<le> 2
     \<and> (\<forall>j. nat (max 0 (int 2 - 2)) \<le> j \<and> j < k \<longrightarrow> strip (L ! j) = [])
     \<and> strip (L ! k) \<noteq> [] \<and> R = strip (L ! k) # rest"
    unfolding L_def ws_def R_def by blast
  then obtain k rest where k: "\<forall>j. 0 \<le> j \<and> j < k \<longrightarrow> strip (L ! j) = []"
      "strip (L ! k) \<noteq> []" and r: "R = strip (L ! k) # rest"
    unfolding start by blast
  have "k \<noteq> 0"
  proof
    assume "k = 0"
    with k(2) have "strip (L ! 0) \<noteq> []" by simp
    with s0 show False by simp
  qed
  moreover have "\<not> 1 < k"
  proof
    assume "1 < k"
    with k(1) have "strip (L ! 1) = []" by blast
    with s1 show False by simp
  qed
  ultimately have "k = 1" by arith
  with r have "R = strip (L ! 1) # rest" by blast
  then have "R = ''--- Page 1 ---'' # rest" by (simp only: s1)
  then show ?thesis unfolding R_def pdf_def by blast
qed

text \<open>
  C3, as stated, fails on that document: the first matching line has index 2, the corpus
  line at index 0 is empty, and the first line of the excerpt is the page marker.
\<close>

theorem excerpt_leading_context_counterexample:
  "split_nl ([NL] @ ''--- Page 1 ---'' @ [NL] @ ''Light energy is converted.'' @ [NL])
     = [[], ''--- Page 1 ---'', ''Light energy is converted.'', []] \<and>
   first_relevant (split_ws (lower ''light energy''))
     (split_nl ([NL] @ ''--- Page 1 ---'' @ [NL] @ ''Light energy is converted.'' @ [NL])) 0 = Some 2 \<and>
   extract_relevant_content
       ([NL] @ ''--- Page 1 ---'' @ [NL] @ ''Light energy is converted.'' @ [NL])
       ''light energy'' ''general'' None None
     = ''--- Page 1 ---'' @ [NL] @ ''Light energy is converted.'' \<and>
   split_nl (''--- Page 1 ---'' @ [NL] @ ''Light energy is converted.'') ! 0
     \<noteq> split_nl ([NL] @ ''--- Page 1 ---'' @ [NL] @ ''Light energy is converted.'' @ [NL]) ! 0"
proof (intro conjI)
  show "split_nl ([NL] @ ''--- Page 1 ---'' @ [NL] @ ''Light energy is converted.'' @ [NL])
     = [[], ''--- Page 1 ---'', ''Light energy is converted.'', []]"
    by code_simp
  show "first_relevant (split_ws (lower ''light energy''))
     (split_nl ([NL] @ ''--- Page 1 ---'' @ [NL] @ ''Light energy is converted.'' @ [NL])) 0 = Some 2"
    by code_simp
  show "extract_relevant_content
       ([NL] @ ''--- Page 1 ---'' @ [NL] @ ''Light energy is converted.'' @ [NL])
       ''light energy'' ''general'' None None
     = ''--- Page 1 ---'' @ [NL] @ ''Light energy is converted.''"
    by code_simp
  show "split_nl (''--- Page 1 ---'' @ [NL] @ ''Light energy is converted.'') ! 0
     \<noteq> split_nl ([NL] @ ''--- Page 1 ---'' @ [NL] @ ''Light energy is converted.'' @ [NL]) ! 0"
    by code_simp
qed


section \<open>The heading stop in the two extractors\<close>

text \<open>
  C4. On a non-blank line that passes the heading test (all upper case and longer than 10
  characters, or starting with one of the markers), the excerpt extractor stops, returning
  what it has collected, only when at least 4 lines are collected; with fewer, it collects
  the heading line and goes on under the sentence rules. The expansion extractor stops at
  such a line whatever it has collected.
\<close>

theorem heading_stop_asymmetry:
  assumes "strip l \<noteq> []" and "is_heading (strip l)"
  shows "(length extracted \<ge> 4 \<longrightarrow> extract_loop mode n (l # ls) extracted = extracted) \<and>
     (length extracted < 4 \<longrightarrow>
        extract_loop mode n (l # ls) extracted =
          (if (mode = ''general'' \<and> endswith (strip l) ''.'' \<and> length (extracted @ [strip l]) \<ge> 50)
              \<or> ((mode = ''examination'' \<or> mode = ''age_appropriate'')
                   \<and> length (extracted @ [strip l]) \<ge> n \<and> endswith (strip l) ''.'')
           then extracted @ [strip l]
           else extract_loop mode n ls (extracted @ [strip l]))) \<and>
     expand_loop mode n (l # ls) expanded = expanded"
proof (intro conjI impI)
  assume "length extracted \<ge> 4"
  then have "length extracted > 3" by simp
  with assms show "extract_loop mode n (l # ls) extracted = extracted"
    by (rule extract_loop_heading)
next
  assume "length extracted < 4"
  then have "\<not> (is_heading (strip l) \<and> length extracted > 3)" by simp
  with assms(1) show "extract_loop mode n (l # ls) extracted =
          (if (mode = ''general'' \<and> endswith (strip l) ''.'' \<and> length (extracted @ [strip l]) \<ge> 50)
              \<or> ((mode = ''examination'' \<or> mode = ''age_appropriate'')
                   \<and> length (extracted @ [strip l]) \<ge> n \<and> endswith (strip l) ''.'')
           then extracted @ [strip l]
           else extract_loop mode n ls (extracted @ [strip l]))"
    by (rule extract_loop_collect)
next
  from assms show "expand_loop mode n (l # ls) expanded = expanded"
    by (rule expand_loop_heading)
qed

text \<open>A chapter heading met with four lines collected, with three, and by the expansion
  loop with none.\<close>

theorem heading_stop_asymmetry_witness:
  "extract_loop ''general'' 50 [''CHAPTER TWO: CELLS'', ''Cells are small.'']
      [''one'', ''two'', ''three'', ''four''] = [''one'', ''two'', ''three'', ''four''] \<and>
   extract_loop ''general'' 50 [''CHAPTER TWO: CELLS'', ''Cells are small.'']
      [''one'', ''two'', ''three''] = [''one'', ''two'', ''three'', ''CHAPTER TWO: CELLS'', ''Cells are small.''] \<and>
   expand_loop ''general'' 50 [''CHAPTER TWO: CELLS'', ''Cells are small.''] [] = []"
proof -
  define l where "l = ''CHAPTER TWO: CELLS''"
  define ls where "ls = [''Cells are small.'']"
  have h1: "strip l \<noteq> []" unfolding l_def by code_simp
  have h2: "is_heading (strip l)" unfolding l_def by code_simp
  have a: "extract_loop ''general'' 50 (l # ls) [''one'', ''two'', ''three'', ''four'']
      = [''one'', ''two'', ''three'', ''four'']"
    using heading_stop_asymmetry[OF h1 h2, of "[''one'', ''two'', ''three'', ''four'']"] by simp
  have b: "expand_loop ''general'' 50 (l # ls) [] = []"
    using heading_stop_asymmetry[OF h1 h2] by blast
  have c: "extract_loop ''general'' 50 (l # ls) [''one'', ''two'', ''three'']
      = [''one'', ''two'', ''three'', ''CHAPTER TWO: CELLS'', ''Cells are small.'']"
    unfolding l_def ls_def by code_simp
  from a b c show ?thesis unfolding l_def ls_def by blast
qed


section \<open>Excerpt extractor: the empty corpus\<close>

text \<open>
  C7, as amended. For an empty corpus, any query, any mode and any parameters,
  \<open>_extract_relevant_content\<close> returns the literal message \<open>No PDF content available.\<close>,
  from the guard at its entry.
\<close>

theorem empty_corpus_message:
  "extract_relevant_content [] question mode marks age = ''No PDF content available.''"
  by (simp add: extract_relevant_content_def no_content_message_def)

text \<open>C7, as stated, fails: for the empty corpus and the query \<open>osmosis\<close> the result is
  not the pointer message naming the query.\<close>

theorem empty_corpus_counterexample:
  "extract_relevant_content [] ''osmosis'' ''general'' None None \<noteq> pointer_message ''osmosis''"
  by (simp add: extract_relevant_content_def no_content_message_def pointer_message_def)


section \<open>Excerpt extractor: runs of newlines in the result\<close>

text \<open>
  C8, as amended. For every corpus, query, mode and parameters, the returned string has no
  run of 3 or more newlines unless it is the pointer message, which quotes the query as it
  was typed; so the result is free of such runs whenever the query is. The collected lines
  are trimmed and non-empty, hence their join has no two adjacent newlines and the
  replacement of three newlines by two leaves it unchanged.
\<close>

theorem excerpt_newline_runs:
  "(extract_relevant_content pdf_content question mode marks age = pointer_message question
      \<or> \<not> py_in [NL, NL, NL] (extract_relevant_content pdf_content question mode marks age)) \<and>
   (\<not> py_in [NL, NL, NL] question
      \<longrightarrow> \<not> py_in [NL, NL, NL] (extract_relevant_content pdf_content question mode marks age)) \<and>
   replace_nl3 (join_nl (excerpt_lines pdf_content question mode marks age))
      = join_nl (excerpt_lines pdf_content question mode marks age)"
proof -
  let ?r = "extract_relevant_content pdf_content question mode marks age"
  consider "?r = no_content_message" | "?r = pointer_message question"
    | "?r = join_nl (excerpt_lines pdf_content question mode marks age)"
    using excerpt_result_cases by blast
  then have a: "?r = pointer_message question \<or> \<not> py_in [NL, NL, NL] ?r"
  proof cases
    case 1
    then show ?thesis by (simp only: no_content_no_NL) simp
  next
    case 2
    then show ?thesis by simp
  next
    case 3
    then show ?thesis by (simp only: join_excerpt_no_NL3) simp
  qed
  have b: "\<not> py_in [NL, NL, NL] question \<longrightarrow> \<not> py_in [NL, NL, NL] ?r"
    using a pointer_message_NL3[of question] by metis
  from a b replace_join_excerpt[of pdf_content question mode marks age] show ?thesis by blast
qed

text \<open>A query of two paragraphs, separated by one blank line, that matches nothing in a
  document of short lines.\<close>

theorem excerpt_newline_runs_witness:
  "\<not> py_in [NL, NL, NL] (extract_relevant_content
      ([NL] @ ''--- Page 1 ---'' @ [NL] @ ''Summary of notes'' @ [NL])
      (''What is osmosis?'' @ [NL, NL] @ ''Explain briefly.'') ''general'' None None)"
proof -
  have "\<not> py_in [NL, NL, NL] (''What is osmosis?'' @ [NL, NL] @ ''Explain briefly.'')"
    by code_simp
  with excerpt_newline_runs[of "[NL] @ ''--- Page 1 ---'' @ [NL] @ ''Summary of notes'' @ [NL]"
      "''What is osmosis?'' @ [NL, NL] @ ''Explain briefly.''" "''general''" None None]
  show ?thesis by blast
qed

text \<open>
  C8, as stated, fails: with two blank lines between the paragraphs of the same query, the
  pointer message that is returned contains three newlines in a row.
\<close>

theorem excerpt_newline_runs_counterexample:
  "py_in [NL, NL, NL] (extract_relevant_content
      ([NL] @ ''--- Page 1 ---'' @ [NL] @ ''Summary of notes'' @ [NL])
      (''What is osmosis?'' @ [NL, NL, NL] @ ''Explain briefly.'') ''general'' None None)"
  by code_simp


section \<open>Search: one hit per matching page\<close>




section \<open>Expansion extractor: the lines below the anchor\<close>

text \<open>
  C5. On a valid page whose first line containing the trimmed anchor has index \<open>k\<close>, every
  collected line is the trimmed text of a page line with index strictly greater than
  \<open>k\<close>; when fewer than 3 lines are collected the result is the anchor as given, a blank
  line, and the lines collected, and otherwise it is the lines collected.
\<close>

theorem expanded_content_below_anchor:
  assumes "0 < pn" and "pn \<le> int (length pages)" and "find_page pages pn \<noteq> []"
    and "k < length (split_nl (find_page pages pn))"
    and "py_in (strip context) (split_nl (find_page pages pn) ! k)"
    and "\<forall>j<k. \<not> py_in (strip context) (split_nl (find_page pages pn) ! j)"
  shows "get_expanded_content pages pn context mode marks age =
       (if length (expanded_lines (split_nl (find_page pages pn)) k mode marks age) < 3
        then context @ [NL, NL] @ join_nl (expanded_lines (split_nl (find_page pages pn)) k mode marks age)
        else join_nl (expanded_lines (split_nl (find_page pages pn)) k mode marks age)) \<and>
     (\<forall>x\<in>set (expanded_lines (split_nl (find_page pages pn)) k mode marks age).
        \<exists>j. k < j \<and> j < length (split_nl (find_page pages pn))
          \<and> x = strip (split_nl (find_page pages pn) ! j))"
proof -
  have "context_line (split_nl (find_page pages pn)) (strip context) 0 = int (0 + k)"
    using assms(4,5,6) by (rule context_line_first)
  then have c: "context_line (split_nl (find_page pages pn)) (strip context) 0 = int k" by simp
  have a: "get_expanded_content pages pn context mode marks age =
       (if length (expanded_lines (split_nl (find_page pages pn)) k mode marks age) < 3
        then context @ [NL, NL] @ join_nl (expanded_lines (split_nl (find_page pages pn)) k mode marks age)
        else join_nl (expanded_lines (split_nl (find_page pages pn)) k mode marks age))"
    using assms(1,2,3) c by (rule expanded_content_found)
  have b: "\<forall>x\<in>set (expanded_lines (split_nl (find_page pages pn)) k mode marks age).
        \<exists>j. k < j \<and> j < length (split_nl (find_page pages pn))
          \<and> x = strip (split_nl (find_page pages pn) ! j)"
    using in_expanded_lines by blast
  from a b show ?thesis ..
qed

text \<open>An anchor found on the second of four lines: the two lines below it are too few, so
  they follow the anchor and a blank line.\<close>

theorem expanded_content_below_anchor_witness:
  "get_expanded_content
     [\<lparr>page_number = 1,
       text_of = ''Cells'' @ [NL] @ ''They divide.'' @ [NL] @ ''They grow.'' @ [NL] @ ''They die.''\<rparr>]
     1 ''divide'' ''general'' None None
   = ''divide'' @ [NL, NL] @ ''They grow.'' @ [NL] @ ''They die.''"
proof -
  define pages where "pages = [\<lparr>page_number = 1,
       text_of = ''Cells'' @ [NL] @ ''They divide.'' @ [NL] @ ''They grow.'' @ [NL] @ ''They die.''\<rparr>]"
  define L where "L = split_nl (find_page pages 1)"
  have h1: "(0::int) < 1" by simp
  have h2: "1 \<le> int (length pages)" unfolding pages_def by simp
  have h3: "find_page pages 1 \<noteq> []" unfolding pages_def by simp
  have h4: "1 < length L" unfolding L_def pages_def by code_simp
  have h5: "py_in (strip ''divide'') (L ! 1)" unfolding L_def pages_def by code_simp
  have m0: "\<not> py_in (strip ''divide'') (L ! 0)" unfolding L_def pages_def by code_simp
  have h6: "\<forall>j<1. \<not> py_in (strip ''divide'') (L ! j)" using m0 by simp
  have E: "expanded_lines L 1 ''general'' None None = [''They grow.'', ''They die.'']"
    unfolding L_def pages_def by code_simp
  have J: "join_nl [''They grow.'', ''They die.''] = ''They grow.'' @ [NL] @ ''They die.''"
    by simp
  from expanded_content_below_anchor[OF h1 h2 h3 h4[unfolded L_def] h5[unfolded L_def] h6[unfolded L_def],
      of "''general''" None None]
  have "get_expanded_content pages 1 ''divide'' ''general'' None None =
       (if length (expanded_lines L 1 ''general'' None None) < 3
        then ''divide'' @ [NL, NL] @ join_nl (expanded_lines L 1 ''general'' None None)
        else join_nl (expanded_lines L 1 ''general'' None None))"
    unfolding L_def by blast
  then have "get_expanded_content pages 1 ''divide'' ''general'' None None =
       ''divide'' @ [NL, NL] @ join_nl [''They grow.'', ''They die.'']"
    unfolding E by simp
  then show ?thesis unfolding J pages_def by simp
qed


section \<open>Expansion extractor: the anchor returned unchanged\<close>

text \<open>
  C6. When the page number is outside \<open>1..page_count\<close>, or when no line of the page
  contains the trimmed anchor, \<open>get_expanded_content\<close> returns the anchor as it was given.
\<close>

theorem expanded_content_unchanged:
  assumes "pn \<le> 0 \<or> pn > int (length pages)
     \<or> (\<forall>line\<in>set (split_nl (find_page pages pn)). \<not> py_in (strip context) line)"
  shows "get_expanded_content pages pn context mode marks age = context"
proof -
  consider "pn \<le> 0 \<or> pn > int (length pages)"
    | "\<forall>line\<in>set (split_nl (find_page pages pn)). \<not> py_in (strip context) line"
    using assms by blast
  then show ?thesis
  proof cases
    case 1
    then show ?thesis by (auto simp: get_expanded_content_def)
  next
    case 2
    then have "context_line (split_nl (find_page pages pn)) (strip context) 0 = - 1"
      by (simp add: context_line_none)
    then show ?thesis by (simp add: get_expanded_content_def Let_def)
  qed
qed

text \<open>A page number beyond the only page, and an anchor that the page does not contain.\<close>

theorem expanded_content_unchanged_witness:
  "get_expanded_content [\<lparr>page_number = 1, text_of = ''Cells divide.''\<rparr>] 2 ''Cells'' ''general'' None None
     = ''Cells'' \<and>
   get_expanded_content [\<lparr>page_number = 1, text_of = ''Cells divide.''\<rparr>] 1 '' osmosis '' ''general'' None None
     = '' osmosis ''"
proof -
  define pages where "pages = [\<lparr>page_number = 1, text_of = ''Cells divide.''\<rparr>]"
  have h1: "(2::int) \<le> 0 \<or> 2 > int (length pages)
     \<or> (\<forall>line\<in>set (split_nl (find_page pages 2)). \<not> py_in (strip ''Cells'') line)"
    unfolding pages_def by simp
  have "\<forall>line\<in>set (split_nl (find_page pages 1)). \<not> py_in (strip '' osmosis '') line"
    unfolding pages_def by code_simp
  then have h2: "(1::int) \<le> 0 \<or> 1 > int (length pages)
     \<or> (\<forall>line\<in>set (split_nl (find_page pages 1)). \<not> py_in (strip '' osmosis '') line)"
    by blast
  from expanded_content_unchanged[OF h1, of "''general''" None None]
    expanded_content_unchanged[OF h2, of "''general''" None None]
  show ?thesis unfolding pages_def by blast
qed


section \<open>Expansion extractor: an empty or blank anchor\<close>

text \<open>
  C10. For an anchor that is empty or consists of white space only, on a valid page with
  text, the trimmed anchor is found in the first line of the page (index 0), so the anchor
  is never reported as missing: the lines are collected from index 1 on, the result is the
  collection, or the anchor, a blank line and the collection when fewer than 3 lines are
  collected, and it differs from the anchor.
\<close>

theorem blank_anchor_expands_below_first_line:
  assumes "\<forall>c\<in>set context. is_space c"
    and "0 < pn" and "pn \<le> int (length pages)" and "find_page pages pn \<noteq> []"
  shows "context_line (split_nl (find_page pages pn)) (strip context) 0 = 0 \<and>
     get_expanded_content pages pn context mode marks age =
       (if length (expanded_lines (split_nl (find_page pages pn)) 0 mode marks age) < 3
        then context @ [NL, NL] @ join_nl (expanded_lines (split_nl (find_page pages pn)) 0 mode marks age)
        else join_nl (expanded_lines (split_nl (find_page pages pn)) 0 mode marks age)) \<and>
     (\<forall>x\<in>set (expanded_lines (split_nl (find_page pages pn)) 0 mode marks age).
        \<exists>j. 0 < j \<and> j < length (split_nl (find_page pages pn))
          \<and> x = strip (split_nl (find_page pages pn) ! j)) \<and>
     get_expanded_content pages pn context mode marks age \<noteq> context"
proof -
  let ?lines = "split_nl (find_page pages pn)"
  let ?C = "expanded_lines ?lines 0 mode marks age"
  have s: "strip context = []" using assms(1) by (simp add: strip_Nil_iff)
  obtain l0 rest where lines: "?lines = l0 # rest"
    using split_nl_not_Nil[of "find_page pages pn"] by (cases ?lines) auto
  have c: "context_line ?lines (strip context) 0 = 0" unfolding lines s by simp
  then have c': "context_line ?lines (strip context) 0 = int 0" by simp
  have r: "get_expanded_content pages pn context mode marks age =
       (if length ?C < 3 then context @ [NL, NL] @ join_nl ?C else join_nl ?C)"
    using assms(2,3,4) c' by (rule expanded_content_found)
  have b: "\<forall>x\<in>set ?C. \<exists>j. 0 < j \<and> j < length ?lines \<and> x = strip (?lines ! j)"
    using in_expanded_lines by blast
  have d: "get_expanded_content pages pn context mode marks age \<noteq> context"
  proof (cases "length ?C < 3")
    case True
    then have "get_expanded_content pages pn context mode marks age
        = context @ [NL, NL] @ join_nl ?C" using r by simp
    then show ?thesis by simp
  next
    case False
    then have "?C \<noteq> []" by auto
    moreover have "\<forall>x\<in>set ?C. trimmed_line x" using trimmed_expanded_lines by blast
    ultimately have "join_nl ?C \<noteq> context" using assms(1) by (rule join_nl_not_blank)
    with False r show ?thesis by simp
  qed
  from c r b d show ?thesis by blast
qed

text \<open>A two-space anchor on a page of four lines: the three lines below the first are
  returned.\<close>

theorem blank_anchor_witness:
  "get_expanded_content
     [\<lparr>page_number = 1,
       text_of = ''Cells.'' @ [NL] @ ''They divide.'' @ [NL] @ ''They grow.'' @ [NL] @ ''They die.''\<rparr>]
     1 ''  '' ''general'' None None
   = ''They divide.'' @ [NL] @ ''They grow.'' @ [NL] @ ''They die.''"
proof -
  define pages where "pages = [\<lparr>page_number = 1,
       text_of = ''Cells.'' @ [NL] @ ''They divide.'' @ [NL] @ ''They grow.'' @ [NL] @ ''They die.''\<rparr>]"
  define L where "L = split_nl (find_page pages 1)"
  have h0: "\<forall>c\<in>set ''  ''. is_space c" by code_simp
  have h1: "(0::int) < 1" by simp
  have h2: "1 \<le> int (length pages)" unfolding pages_def by simp
  have h3: "find_page pages 1 \<noteq> []" unfolding pages_def by simp
  have E: "expanded_lines L 0 ''general'' None None = [''They divide.'', ''They grow.'', ''They die.'']"
    unfolding L_def pages_def by code_simp
  have J: "join_nl [''They divide.'', ''They grow.'', ''They die.'']
      = ''They divide.'' @ [NL] @ ''They grow.'' @ [NL] @ ''They die.''"
    by simp
  from blank_anchor_expands_below_first_line[OF h0 h1 h2 h3, of "''general''" None None]
  have "get_expanded_content pages 1 ''  '' ''general'' None None =
       (if length (expanded_lines L 0 ''general'' None None) < 3
        then ''  '' @ [NL, NL] @ join_nl (expanded_lines L 0 ''general'' None None)
        else join_nl (expanded_lines L 0 ''general'' None None))"
    unfolding L_def by blast
  then have "get_expanded_content pages 1 ''  '' ''general'' None None =
       join_nl [''They divide.'', ''They grow.'', ''They die.'']"
    unfolding E by simp
  then show ?thesis unfolding J pages_def by simp
qed

end
